theory Spec2Isabelle
  imports Complex_Main
begin

section \<open>Data model\<close>

text \<open>
  The analytical core of the dashboard is the single function \<open>analyze_nifty_data\<close> of
  \<open>app.py\<close>. It works on a pandas frame with a \<open>DatetimeIndex\<close> of trading days and
  a \<open>Close\<close> column. Index entries are calendar days (daily data carries no time of day).
\<close>

datatype timestamp = Timestamp (year: int) (month: nat) (day: nat)

text \<open>Comparison of index entries is chronological: year, then month, then day.\<close>

definition ts_le :: "timestamp \<Rightarrow> timestamp \<Rightarrow> bool" where
  "ts_le a b =
     (year a < year b \<or>
      (year a = year b \<and> (month a < month b \<or> (month a = month b \<and> day a \<le> day b))))"

definition ts_lt :: "timestamp \<Rightarrow> timestamp \<Rightarrow> bool" where
  "ts_lt a b = (ts_le a b \<and> a \<noteq> b)"

definition is_leap :: "int \<Rightarrow> bool" where
  "is_leap y = (y mod 4 = 0 \<and> (y mod 100 \<noteq> 0 \<or> y mod 400 = 0))"

definition days_in_month :: "int \<Rightarrow> nat \<Rightarrow> nat" where
  "days_in_month y m =
     (if m = 2 then (if is_leap y then 29 else 28)
      else if m = 4 \<or> m = 6 \<or> m = 9 \<or> m = 11 then 30
      else 31)"

definition valid_date :: "timestamp \<Rightarrow> bool" where
  "valid_date t =
     (1 \<le> month t \<and> month t \<le> 12 \<and> 1 \<le> day t \<and> day t \<le> days_in_month (year t) (month t))"

text \<open>
  The proleptic Gregorian day number of a date, as \<open>datetime.date.toordinal\<close> computes it.
  Only differences of day numbers are used, for the distance of the nearest-entry lookup.
\<close>

definition days_before_year :: "int \<Rightarrow> int" where
  "days_before_year y = (y - 1) * 365 + (y - 1) div 4 - (y - 1) div 100 + (y - 1) div 400"

definition days_before_month :: "int \<Rightarrow> nat \<Rightarrow> nat" where
  "days_before_month y m = sum_list (map (days_in_month y) [1..<m])"

definition toordinal :: "timestamp \<Rightarrow> int" where
  "toordinal t =
     days_before_year (year t) + int (days_before_month (year t) (month t)) + int (day t)"

definition distance :: "timestamp \<Rightarrow> timestamp \<Rightarrow> int" where
  "distance a b = \<bar>toordinal a - toordinal b\<bar>"

text \<open>
  A cell of a float column. Floating-point numbers are idealised as reals, with the three
  special values that the operations of the analysis can produce: \<open>NaN\<close> (a missing
  value), and the two infinities that numpy's division by zero yields.
\<close>

datatype pfloat = NaN | NInf | Fin real | PInf

text \<open>\<open>x <= 0\<close> and \<open>a > b\<close> on floats: every comparison with \<open>NaN\<close> is false.\<close>

fun le_zero :: "pfloat \<Rightarrow> bool" where
  "le_zero NaN = False"
| "le_zero NInf = True"
| "le_zero (Fin x) = (x \<le> 0)"
| "le_zero PInf = False"

fun gt :: "pfloat \<Rightarrow> pfloat \<Rightarrow> bool" where
  "gt NaN _ = False"
| "gt _ NaN = False"
| "gt NInf _ = False"
| "gt (Fin a) NInf = True"
| "gt (Fin a) (Fin b) = (b < a)"
| "gt (Fin a) PInf = False"
| "gt PInf PInf = False"
| "gt PInf _ = True"

text \<open>
  A series is a column with its index. The frame passed to the analysis holds the index with
  the \<open>Close\<close> column (one row per trading day), and possibly a \<open>Daily_Return\<close>
  column; the other columns of the download are never read or written.
\<close>

type_synonym series = "(timestamp \<times> pfloat) list"

record frame =
  rows :: "(timestamp \<times> real) list"
  daily_return :: "pfloat list option"

text \<open>
  A Price Series: valid calendar dates in strictly ascending order (so no duplicates).
\<close>

definition price_series :: "(timestamp \<times> real) list \<Rightarrow> bool" where
  "price_series rs =
     ((\<forall>r \<in> set rs. valid_date (fst r)) \<and> sorted_wrt ts_lt (map fst rs))"

section \<open>The pandas operations used by the analysis\<close>

text \<open>
  \<open>pct_change\<close>: the first cell has no predecessor and is \<open>NaN\<close>; every other cell is
  \<open>cur / prev - 1\<close>. Division by a zero close gives an infinity, or \<open>NaN\<close> for
  \<open>0 / 0\<close>. The columns it is applied to hold closes or \<open>NaN\<close>, never an infinity.
\<close>

fun pct :: "pfloat \<Rightarrow> pfloat \<Rightarrow> pfloat" where
  "pct (Fin cur) (Fin prev) =
     (if prev = 0 then (if cur = 0 then NaN else if 0 < cur then PInf else NInf)
      else Fin (cur / prev - 1))"
| "pct _ _ = NaN"

fun pct_change :: "pfloat list \<Rightarrow> pfloat list" where
  "pct_change [] = []"
| "pct_change (x # xs) = NaN # map2 pct xs (x # xs)"

definition pct_change_series :: "series \<Rightarrow> series" where
  "pct_change_series s = zip (map fst s) (pct_change (map snd s))"

definition dropna :: "series \<Rightarrow> series" where
  "dropna s = filter (\<lambda>r. snd r \<noteq> NaN) s"

text \<open>
  \<open>resample(rule).ffill()\<close> re-indexes the column at the period ends between the first
  and the last index entry, each label taking the close of the last row at or before it
  (\<open>NaN\<close> when there is none).
\<close>

definition asof :: "(timestamp \<times> real) list \<Rightarrow> timestamp \<Rightarrow> pfloat" where
  "asof rs l =
     (case filter (\<lambda>r. ts_le (fst r) l) rs of
        [] \<Rightarrow> NaN
      | r # rest \<Rightarrow> Fin (snd (last (r # rest))))"

definition year_ends :: "timestamp list \<Rightarrow> timestamp list" where
  "year_ends idx =
     (if idx = [] then []
      else map (\<lambda>y. Timestamp y 12 31) [year (hd idx) .. year (last idx)])"

definition month_number :: "timestamp \<Rightarrow> int" where
  "month_number t = year t * 12 + int (month t) - 1"

definition month_end :: "int \<Rightarrow> timestamp" where
  "month_end k =
     Timestamp (k div 12) (nat (k mod 12) + 1) (days_in_month (k div 12) (nat (k mod 12) + 1))"

definition month_ends :: "timestamp list \<Rightarrow> timestamp list" where
  "month_ends idx =
     (if idx = [] then []
      else map month_end [month_number (hd idx) .. month_number (last idx)])"

definition resample_ffill ::
  "(timestamp list \<Rightarrow> timestamp list) \<Rightarrow> (timestamp \<times> real) list \<Rightarrow> series" where
  "resample_ffill labels rs = map (\<lambda>l. (l, asof rs l)) (labels (map fst rs))"

definition resample_returns ::
  "(timestamp list \<Rightarrow> timestamp list) \<Rightarrow> (timestamp \<times> real) list \<Rightarrow> series" where
  "resample_returns labels rs = dropna (pct_change_series (resample_ffill labels rs))"

text \<open>
  \<open>mean\<close> skips missing values; of no values at all it is \<open>NaN\<close>. A sum that meets both
  infinities is \<open>NaN\<close>.
\<close>

fun the_fin :: "pfloat \<Rightarrow> real" where
  "the_fin (Fin x) = x"
| "the_fin _ = 0"

definition mean :: "pfloat list \<Rightarrow> pfloat" where
  "mean vs =
     (let ws = filter (\<lambda>v. v \<noteq> NaN) vs in
      if ws = [] then NaN
      else if PInf \<in> set ws \<and> NInf \<in> set ws then NaN
      else if PInf \<in> set ws then PInf
      else if NInf \<in> set ws then NInf
      else Fin (sum_list (map the_fin ws) / real (length ws)))"

text \<open>
  \<open>index.get_loc(key, method='nearest')\<close>, as pandas 1.x provides it, on an ascending
  index: the position of the
  entry closest to the key; of the last entry at or before the key and the first entry at
  or after it, the earlier one wins only when it is strictly closer. \<open>None\<close> stands for
  the \<open>KeyError\<close> raised when no position is found.
\<close>

definition pad_loc :: "timestamp list \<Rightarrow> timestamp \<Rightarrow> nat option" where
  "pad_loc idx t =
     (case filter (\<lambda>i. ts_le (idx ! i) t) [0..<length idx] of
        [] \<Rightarrow> None
      | i # rest \<Rightarrow> Some (last (i # rest)))"

definition backfill_loc :: "timestamp list \<Rightarrow> timestamp \<Rightarrow> nat option" where
  "backfill_loc idx t =
     (case filter (\<lambda>i. ts_le t (idx ! i)) [0..<length idx] of
        [] \<Rightarrow> None
      | i # rest \<Rightarrow> Some i)"

definition get_loc_nearest :: "timestamp list \<Rightarrow> timestamp \<Rightarrow> nat option" where
  "get_loc_nearest idx t =
     (case (pad_loc idx t, backfill_loc idx t) of
        (None, None) \<Rightarrow> None
      | (Some l, None) \<Rightarrow> Some l
      | (None, Some r) \<Rightarrow> Some r
      | (Some l, Some r) \<Rightarrow>
          if distance (idx ! l) t < distance (idx ! r) t then Some l else Some r)"

section \<open>The analysis\<close>

text \<open>
  Slump detection: the scan over the positions of \<open>yearly_returns <= 0\<close>. The state is
  \<open>start_year\<close> and the list \<open>consecutive_periods\<close>; \<open>scan_step\<close> is the body of the
  \<open>for\<close> loop at position \<open>i\<close>, and \<open>find_periods\<close> runs it and closes a run that is
  still open at the end. The body reads position \<open>i - 1\<close> only with a run open, which
  is never the case at position 0.
\<close>

definition scan_step ::
  "series \<Rightarrow> int option \<times> (int \<times> int) list \<Rightarrow> nat \<Rightarrow> int option \<times> (int \<times> int) list" where
  "scan_step yr st i =
     (case st of (start_year, consecutive_periods) \<Rightarrow>
        if le_zero (snd (yr ! i)) then
          (if start_year = None then (Some (year (fst (yr ! i))), consecutive_periods)
           else (start_year, consecutive_periods))
        else
          (case start_year of
             Some s \<Rightarrow> (None, consecutive_periods @ [(s, year (fst (yr ! (i - 1))))])
           | None \<Rightarrow> (None, consecutive_periods)))"

definition find_periods :: "series \<Rightarrow> (int \<times> int) list" where
  "find_periods yr =
     (case foldl (scan_step yr) (None, []) [0..<length yr] of
        (Some s, consecutive_periods) \<Rightarrow> consecutive_periods @ [(s, year (fst (last yr)))]
      | (None, consecutive_periods) \<Rightarrow> consecutive_periods)"

text \<open>
  Recovery counting: \<open>exceeds_step\<close> is the body of the loop over the periods, on the two
  counters. A \<open>KeyError\<close> of the lookup, or a found entry of another year, leaves both
  counters as they are.
\<close>

definition exceeds_step ::
  "series \<Rightarrow> pfloat \<Rightarrow> nat \<times> nat \<Rightarrow> int \<times> int \<Rightarrow> nat \<times> nat" where
  "exceeds_step yr m cs p =
     (case cs of (count_next_year_exceeds, count_next_two_years_exceeds) \<Rightarrow>
      case p of (start_year, end_year) \<Rightarrow>
        (case get_loc_nearest (map fst yr) (Timestamp end_year 12 31) of
           None \<Rightarrow> (count_next_year_exceeds, count_next_two_years_exceeds)
         | Some k \<Rightarrow>
             if k < length yr \<and> year (fst (yr ! k)) = end_year then
               (if k + 1 < length yr \<and> gt (snd (yr ! (k + 1))) m
                then count_next_year_exceeds + 1 else count_next_year_exceeds,
                if k + 2 < length yr \<and> gt (snd (yr ! (k + 1))) m \<and> gt (snd (yr ! (k + 2))) m
                then count_next_two_years_exceeds + 1 else count_next_two_years_exceeds)
             else (count_next_year_exceeds, count_next_two_years_exceeds)))"

definition exceeds_counts :: "series \<Rightarrow> pfloat \<Rightarrow> (int \<times> int) list \<Rightarrow> nat \<times> nat" where
  "exceeds_counts yr m consecutive_periods = foldl (exceeds_step yr m) (0, 0) consecutive_periods"

definition recovery_probabilities ::
  "series \<Rightarrow> pfloat \<Rightarrow> (int \<times> int) list \<Rightarrow> real \<times> real" where
  "recovery_probabilities yr m consecutive_periods =
     (let total_negative_or_zero_periods = length consecutive_periods;
          cs = exceeds_counts yr m consecutive_periods
      in (if total_negative_or_zero_periods > 0
          then real (fst cs) / real total_negative_or_zero_periods else 0,
          if total_negative_or_zero_periods > 0
          then real (snd cs) / real total_negative_or_zero_periods else 0))"

text \<open>
  The function itself. The year of \<open>pd.Timestamp('now')\<close> is the parameter
  \<open>current_year\<close>. The first statement assigns the \<open>Daily_Return\<close> column of the
  caller's frame, so the frame after the call is part of the result.
\<close>

record analysis =
  yearly_returns :: series
  monthly_returns_current_year :: series
  probability_next_year_exceeds :: real
  probability_next_two_years_exceeds :: real
  mean_yearly_return :: pfloat

definition analyze_nifty_data :: "int \<Rightarrow> frame \<Rightarrow> frame \<times> analysis" where
  "analyze_nifty_data current_year nifty_historical_data =
     (let df = nifty_historical_data
            \<lparr>daily_return := Some (pct_change (map (\<lambda>r. Fin (snd r)) (rows nifty_historical_data)))\<rparr>;
          yr = resample_returns year_ends (rows df);
          current_year_data = filter (\<lambda>r. year (fst r) = current_year) (rows df);
          mo = resample_returns month_ends current_year_data;
          m = mean (map snd yr);
          ps = recovery_probabilities yr m (find_periods yr)
      in (df,
          \<lparr>yearly_returns = yr,
           monthly_returns_current_year = mo,
           probability_next_year_exceeds = fst ps,
           probability_next_two_years_exceeds = snd ps,
           mean_yearly_return = m\<rparr>))"

section \<open>Predicates of the specification\<close>

text \<open>
  The index of a Yearly Return Series holds the ends of consecutive calendar years.
\<close>

definition consecutive_years :: "series \<Rightarrow> bool" where
  "consecutive_years yr =
     (\<forall>i. Suc i < length yr \<longrightarrow> year (fst (yr ! Suc i)) = year (fst (yr ! i)) + 1)"

text \<open>
  A period \<open>(start_year, end_year)\<close> covers the years of its range. Two periods are apart
  when the second starts after the year that follows the end of the first, so that at
  least one year lies between them.
\<close>

definition covers :: "int \<times> int \<Rightarrow> int \<Rightarrow> bool" where
  "covers p y = (fst p \<le> y \<and> y \<le> snd p)"

definition apart :: "int \<times> int \<Rightarrow> int \<times> int \<Rightarrow> bool" where
  "apart p q = (snd p + 1 < fst q)"

text \<open>
  The invariant of the scan after \<open>k\<close> positions: the closed periods are apart from each
  other and from the open run, and together with the open run they cover exactly the
  non-positive years seen so far.
\<close>

definition scan_inv :: "series \<Rightarrow> nat \<Rightarrow> int option \<times> (int \<times> int) list \<Rightarrow> bool" where
  "scan_inv yr k st =
     (case st of (start, acc) \<Rightarrow>
        let y0 = year (fst (yr ! 0));
            lim = (case start of None \<Rightarrow> y0 + int k | Some s \<Rightarrow> s);
            run = (case start of None \<Rightarrow> {} | Some s \<Rightarrow> {s .. y0 + int k - 1})
        in sorted_wrt apart acc
         \<and> (\<forall>p \<in> set acc. fst p \<le> snd p \<and> snd p + 1 < lim)
         \<and> (case start of None \<Rightarrow> True | Some s \<Rightarrow> 0 < k \<and> s \<le> y0 + int k - 1)
         \<and> {y. \<exists>p \<in> set acc. covers p y} \<union> run
             = {y0 + int i | i. i < k \<and> le_zero (snd (yr ! i))})"


text \<open>
  The close that stands for a year: the close of the last row dated in that year or
  before it.
\<close>

definition close_at_year_end :: "(timestamp \<times> real) list \<Rightarrow> int \<Rightarrow> real" where
  "close_at_year_end rs y = snd (last (filter (\<lambda>r. year (fst r) \<le> y) rs))"

section \<open>Example inputs\<close>

text \<open>The scenario of the specification: six yearly closes, 2018 to 2023.\<close>

definition scenario_rows :: "(timestamp \<times> real) list" where
  "scenario_rows =
     [(Timestamp 2018 12 31, 100), (Timestamp 2019 12 31, 90), (Timestamp 2020 12 31, 95),
      (Timestamp 2021 12 31, 80), (Timestamp 2022 12 31, 120), (Timestamp 2023 12 31, 130)]"

definition scenario_returns :: series where
  "scenario_returns =
     [(Timestamp 2019 12 31, Fin (- 1 / 10)), (Timestamp 2020 12 31, Fin (1 / 18)),
      (Timestamp 2021 12 31, Fin (- 3 / 19)), (Timestamp 2022 12 31, Fin (1 / 2)),
      (Timestamp 2023 12 31, Fin (1 / 12))]"

text \<open>
  A yearly series with a single non-positive year between positive years, and a
  non-positive last year.
\<close>

definition slump_example :: series where
  "slump_example =
     [(Timestamp 2019 12 31, Fin (1 / 10)), (Timestamp 2020 12 31, Fin (- 1 / 10)),
      (Timestamp 2021 12 31, Fin (1 / 5)), (Timestamp 2022 12 31, Fin (- 1 / 20))]"

text \<open>
  A frame whose last yearly return is negative.
\<close>

definition recent_slump_rows :: "(timestamp \<times> real) list" where
  "recent_slump_rows =
     [(Timestamp 2018 12 31, 100), (Timestamp 2019 12 31, 90),
      (Timestamp 2020 12 31, 120), (Timestamp 2021 12 31, 110)]"

definition recent_slump_returns :: series where
  "recent_slump_returns =
     [(Timestamp 2019 12 31, Fin (- 1 / 10)), (Timestamp 2020 12 31, Fin (1 / 3)),
      (Timestamp 2021 12 31, Fin (- 1 / 12))]"

text \<open>
  Two rows with a calendar year without any row between them.
\<close>

definition gap_rows :: "(timestamp \<times> real) list" where
  "gap_rows = [(Timestamp 2018 6 1, 100), (Timestamp 2020 6 1, 110)]"

section \<open>What the analysis returns\<close>

lemma analyze_frame:
  "fst (analyze_nifty_data cy df) =
     df\<lparr>daily_return := Some (pct_change (map (\<lambda>r. Fin (snd r)) (rows df)))\<rparr>"
  by (simp add: analyze_nifty_data_def Let_def)

lemma analyze_yearly:
  "yearly_returns (snd (analyze_nifty_data cy df)) = resample_returns year_ends (rows df)"
  by (simp add: analyze_nifty_data_def Let_def)

lemma analyze_monthly:
  "monthly_returns_current_year (snd (analyze_nifty_data cy df)) =
     resample_returns month_ends (filter (\<lambda>r. year (fst r) = cy) (rows df))"
  by (simp add: analyze_nifty_data_def Let_def)

lemma analyze_mean:
  "mean_yearly_return (snd (analyze_nifty_data cy df)) =
     mean (map snd (resample_returns year_ends (rows df)))"
  by (simp add: analyze_nifty_data_def Let_def)

lemma analyze_probabilities:
  "(probability_next_year_exceeds (snd (analyze_nifty_data cy df)),
    probability_next_two_years_exceeds (snd (analyze_nifty_data cy df))) =
     recovery_probabilities (resample_returns year_ends (rows df))
       (mean (map snd (resample_returns year_ends (rows df))))
       (find_periods (resample_returns year_ends (rows df)))"
  by (simp add: analyze_nifty_data_def Let_def)

section \<open>The scenario of the specification\<close>

lemma scenario_yearly: "resample_returns year_ends scenario_rows = scenario_returns"
  by (simp add: resample_returns_def resample_ffill_def year_ends_def scenario_rows_def
      scenario_returns_def asof_def ts_le_def pct_change_series_def dropna_def upto.simps)

lemma scenario_periods: "find_periods scenario_returns = [(2019, 2019), (2021, 2021)]"
  by (simp add: find_periods_def scan_step_def scenario_returns_def upt_conv_Cons)

lemma scenario_mean: "mean (map snd scenario_returns) = Fin (1303 / 17100)"
  by (simp add: mean_def scenario_returns_def)

lemma scenario_loc_2019:
  "get_loc_nearest (map fst scenario_returns) (Timestamp 2019 12 31) = Some 0"
  by (simp add: get_loc_nearest_def pad_loc_def backfill_loc_def scenario_returns_def
      ts_le_def upt_conv_Cons)

lemma scenario_loc_2021:
  "get_loc_nearest (map fst scenario_returns) (Timestamp 2021 12 31) = Some 2"
  by (simp add: get_loc_nearest_def pad_loc_def backfill_loc_def scenario_returns_def
      ts_le_def upt_conv_Cons)

lemma scenario_counts:
  "exceeds_counts scenario_returns (Fin (1303 / 17100)) [(2019, 2019), (2021, 2021)] = (1, 1)"
  by (simp add: exceeds_counts_def exceeds_step_def scenario_loc_2019 scenario_loc_2021)
     (simp add: scenario_returns_def)

text \<open>
  Claim C1. For the closes 100, 90, 95, 80, 120, 130 at the ends of 2018 to 2023, whatever
  the current year, the analysis returns exactly five yearly returns, for 2019 to 2023:
  \<open>-1/10\<close>, \<open>1/18\<close>, \<open>-3/19\<close>, \<open>1/2\<close> and \<open>1/12\<close> (that is -10%, +5.6%, -15.8%, +50%
  and +8.3%); the scan finds exactly the two one-year slumps (2019, 2019) and
  (2021, 2021); and both probabilities are 1/2.
\<close>

theorem scenario_analysis:
  "yearly_returns (snd (analyze_nifty_data cy \<lparr>rows = scenario_rows, daily_return = dr\<rparr>))
     = [(Timestamp 2019 12 31, Fin (- 1 / 10)), (Timestamp 2020 12 31, Fin (1 / 18)),
        (Timestamp 2021 12 31, Fin (- 3 / 19)), (Timestamp 2022 12 31, Fin (1 / 2)),
        (Timestamp 2023 12 31, Fin (1 / 12))]
   \<and> find_periods
       (yearly_returns (snd (analyze_nifty_data cy \<lparr>rows = scenario_rows, daily_return = dr\<rparr>)))
     = [(2019, 2019), (2021, 2021)]
   \<and> probability_next_year_exceeds
       (snd (analyze_nifty_data cy \<lparr>rows = scenario_rows, daily_return = dr\<rparr>)) = 1 / 2
   \<and> probability_next_two_years_exceeds
       (snd (analyze_nifty_data cy \<lparr>rows = scenario_rows, daily_return = dr\<rparr>)) = 1 / 2"
proof -
  let ?df = "\<lparr>rows = scenario_rows, daily_return = dr\<rparr>"
  have yr: "yearly_returns (snd (analyze_nifty_data cy ?df)) = scenario_returns"
    by (simp add: analyze_yearly scenario_yearly)
  have "(probability_next_year_exceeds (snd (analyze_nifty_data cy ?df)),
         probability_next_two_years_exceeds (snd (analyze_nifty_data cy ?df)))
        = recovery_probabilities scenario_returns (Fin (1303 / 17100)) [(2019, 2019), (2021, 2021)]"
    by (simp only: analyze_probabilities frame.simps scenario_yearly scenario_mean scenario_periods)
  also have "\<dots> = (1 / 2, 1 / 2)"
    by (simp add: recovery_probabilities_def scenario_counts)
  finally have ps: "probability_next_year_exceeds (snd (analyze_nifty_data cy ?df)) = 1 / 2"
    "probability_next_two_years_exceeds (snd (analyze_nifty_data cy ?df)) = 1 / 2"
    by simp_all
  show ?thesis
    by (simp only: yr ps scenario_periods) (simp add: scenario_returns_def)
qed

section \<open>Slump detection\<close>

lemma consecutive_year_at:
  "consecutive_years yr \<Longrightarrow> i < length yr \<Longrightarrow> year (fst (yr ! i)) = year (fst (yr ! 0)) + int i"
proof (induction i)
  case 0
  then show ?case by simp
next
  case (Suc i)
  then have "year (fst (yr ! Suc i)) = year (fst (yr ! i)) + 1"
    by (simp add: consecutive_years_def)
  with Suc show ?case by simp
qed

lemma nonpos_years_Suc:
  "{y0 + int i | i. i < Suc k \<and> P i} =
     {y0 + int i | i. i < k \<and> P i} \<union> (if P k then {y0 + int k} else {})"
  by (auto simp: less_Suc_eq)

lemma scan_inv_step:
  assumes cy: "consecutive_years yr" and k: "k < length yr" and inv: "scan_inv yr k st"
  shows "scan_inv yr (Suc k) (scan_step yr st k)"
proof -
  obtain start acc where st: "st = (start, acc)" by (cases st)
  define y0 where "y0 = year (fst (yr ! 0))"
  have yk: "year (fst (yr ! k)) = y0 + int k"
    using consecutive_year_at[OF cy k] by (simp add: y0_def)
  have ykm: "0 < k \<Longrightarrow> year (fst (yr ! (k - Suc 0))) = y0 + int k - 1"
    using consecutive_year_at[OF cy, of "k - 1"] k by (simp add: y0_def)
  show ?thesis
  proof (cases "le_zero (snd (yr ! k))")
    case True
    show ?thesis
    proof (cases start)
      case None
      with inv True show ?thesis
        unfolding st scan_inv_def scan_step_def nonpos_years_Suc Let_def
        by (auto simp: yk y0_def[symmetric])
    next
      case (Some s)
      with inv True show ?thesis
        unfolding st scan_inv_def scan_step_def nonpos_years_Suc Let_def
        by (auto simp: yk y0_def[symmetric])
    qed
  next
    case False
    show ?thesis
    proof (cases start)
      case None
      with inv False show ?thesis
        unfolding st scan_inv_def scan_step_def nonpos_years_Suc Let_def
        by (auto simp: yk y0_def[symmetric])
    next
      case (Some s)
      with inv have kpos: "0 < k" by (simp add: st scan_inv_def Let_def)
      from inv False Some show ?thesis
        unfolding st scan_inv_def scan_step_def nonpos_years_Suc Let_def
        by (auto simp: ykm[OF kpos] y0_def[symmetric] sorted_wrt_append apart_def covers_def)
    qed
  qed
qed


lemma scan_inv_init: "scan_inv yr 0 (None, [])"
  by (simp add: scan_inv_def)

lemma scan_inv_foldl:
  "consecutive_years yr \<Longrightarrow> k \<le> length yr \<Longrightarrow>
   scan_inv yr k (foldl (scan_step yr) (None, []) [0..<k])"
proof (induction k)
  case 0
  show ?case by (simp add: scan_inv_init)
next
  case (Suc k)
  then have "scan_inv yr k (foldl (scan_step yr) (None, []) [0..<k])" and "k < length yr"
    by simp_all
  with Suc.prems(1) show ?case
    by (simp add: scan_inv_step)
qed

lemma nonpos_years_set:
  assumes cy: "consecutive_years yr"
  shows "{year (fst (yr ! 0)) + int i | i. i < length yr \<and> le_zero (snd (yr ! i))}
         = {y. \<exists>r \<in> set yr. year (fst r) = y \<and> le_zero (snd r)}" (is "?A = ?B")
proof (rule set_eqI, rule iffI)
  fix y assume "y \<in> ?A"
  then obtain i where i: "y = year (fst (yr ! 0)) + int i" "i < length yr" "le_zero (snd (yr ! i))"
    by auto
  then have "yr ! i \<in> set yr" and "year (fst (yr ! i)) = y"
    using consecutive_year_at[OF cy, of i] by simp_all
  with i(3) show "y \<in> ?B" by blast
next
  fix y assume "y \<in> ?B"
  then obtain r where r: "r \<in> set yr" "year (fst r) = y" "le_zero (snd r)"
    by auto
  then obtain i where i: "i < length yr" "yr ! i = r"
    by (auto simp: in_set_conv_nth)
  then have "y = year (fst (yr ! 0)) + int i"
    using consecutive_year_at[OF cy, of i] r(2) by simp
  with i r(3) show "y \<in> ?A" by auto
qed

lemma find_periods_core:
  assumes cy: "consecutive_years yr"
  shows "sorted_wrt apart (find_periods yr)"
    and "\<forall>p \<in> set (find_periods yr). fst p \<le> snd p"
    and "{y. \<exists>p \<in> set (find_periods yr). covers p y}
         = {y. \<exists>r \<in> set yr. year (fst r) = y \<and> le_zero (snd r)}"
proof -
  obtain start acc where st: "foldl (scan_step yr) (None, []) [0..<length yr] = (start, acc)"
    by (cases "foldl (scan_step yr) (None, []) [0..<length yr]")
  have inv: "scan_inv yr (length yr) (start, acc)"
    using scan_inv_foldl[OF cy, of "length yr"] st by simp
  define y0 where "y0 = year (fst (yr ! 0))"
  have all: "sorted_wrt apart (find_periods yr)
     \<and> (\<forall>p \<in> set (find_periods yr). fst p \<le> snd p)
     \<and> {y. \<exists>p \<in> set (find_periods yr). covers p y}
         = {y0 + int i | i. i < length yr \<and> le_zero (snd (yr ! i))}"
  proof (cases start)
    case None
    with inv show ?thesis
      by (simp add: find_periods_def st scan_inv_def Let_def y0_def)
  next
    case (Some s)
    with inv have pos: "0 < length yr" by (simp add: scan_inv_def Let_def)
    then have "last yr = yr ! (length yr - 1)"
      by (simp add: last_conv_nth)
    then have ylast: "year (fst (last yr)) = y0 + int (length yr) - 1"
      using consecutive_year_at[OF cy, of "length yr - 1"] pos
      by (simp add: y0_def)
    from inv Some show ?thesis
      unfolding find_periods_def st scan_inv_def Let_def
      by (auto simp: ylast y0_def[symmetric] sorted_wrt_append apart_def covers_def)
  qed
  from all show "sorted_wrt apart (find_periods yr)" by simp
  from all show "\<forall>p \<in> set (find_periods yr). fst p \<le> snd p" by simp
  from all show "{y. \<exists>p \<in> set (find_periods yr). covers p y}
         = {y. \<exists>r \<in> set yr. year (fst r) = y \<and> le_zero (snd r)}"
    using nonpos_years_set[OF cy] by (simp add: y0_def)
qed


lemma sorted_wrt_last:
  "sorted_wrt R xs \<Longrightarrow> p \<in> set xs \<Longrightarrow> p \<noteq> last xs \<Longrightarrow> R p (last xs)"
proof (induction xs rule: rev_induct)
  case Nil
  then show ?case by simp
next
  case (snoc x xs)
  then show ?case by (auto simp: sorted_wrt_append)
qed

lemma series_year_bounds:
  assumes cy: "consecutive_years yr" and r: "r \<in> set yr"
  shows "year (fst (yr ! 0)) \<le> year (fst r) \<and> year (fst r) \<le> year (fst (last yr))"
proof -
  from r obtain i where i: "i < length yr" "yr ! i = r" by (auto simp: in_set_conv_nth)
  then have pos: "0 < length yr" and ne: "yr \<noteq> []" by auto
  have "year (fst (last yr)) = year (fst (yr ! 0)) + int (length yr - 1)"
    using consecutive_year_at[OF cy, of "length yr - 1"] pos by (simp add: last_conv_nth[OF ne])
  moreover have "year (fst r) = year (fst (yr ! 0)) + int i"
    using consecutive_year_at[OF cy i(1)] i(2) by simp
  ultimately show ?thesis using i(1) by simp
qed

lemma series_year_inj:
  assumes cy: "consecutive_years yr" and "i < length yr" and "j < length yr"
    and "year (fst (yr ! i)) = year (fst (yr ! j))"
  shows "i = j"
  using assms consecutive_year_at[OF cy, of i] consecutive_year_at[OF cy, of j] by simp

lemma find_periods_single:
  assumes cy: "consecutive_years yr"
    and i: "0 < i" "Suc i < length yr"
    and neg: "le_zero (snd (yr ! i))"
    and before: "\<not> le_zero (snd (yr ! (i - 1)))"
    and after: "\<not> le_zero (snd (yr ! Suc i))"
  shows "(year (fst (yr ! i)), year (fst (yr ! i))) \<in> set (find_periods yr)"
proof -
  let ?y = "year (fst (yr ! i))"
  have cov: "{y. \<exists>p \<in> set (find_periods yr). covers p y}
         = {y. \<exists>r \<in> set yr. year (fst r) = y \<and> le_zero (snd r)}"
    by (rule find_periods_core(3)[OF cy])
  have ilen: "i < length yr" using i by simp
  have "?y \<in> {y. \<exists>r \<in> set yr. year (fst r) = y \<and> le_zero (snd r)}"
    using neg ilen nth_mem by blast
  with cov obtain p where p: "p \<in> set (find_periods yr)" "covers p ?y" by blast
  have not_cov: "\<not> covers p (year (fst (yr ! j)))" if j: "j < length yr" "\<not> le_zero (snd (yr ! j))" for j
  proof
    assume "covers p (year (fst (yr ! j)))"
    with p(1) cov obtain r where r: "r \<in> set yr" "year (fst r) = year (fst (yr ! j))" "le_zero (snd r)"
      by blast
    then obtain k where k: "k < length yr" "yr ! k = r" by (auto simp: in_set_conv_nth)
    with r(2) have "k = j" using series_year_inj[OF cy k(1) j(1)] by simp
    with k r(3) j(2) show False by simp
  qed
  have yb: "year (fst (yr ! (i - 1))) = ?y - 1"
    using consecutive_year_at[OF cy, of "i - 1"] consecutive_year_at[OF cy ilen] i by simp
  have ya: "year (fst (yr ! Suc i)) = ?y + 1"
    using consecutive_year_at[OF cy i(2)] consecutive_year_at[OF cy ilen] by simp
  have "\<not> covers p (?y - 1)" using not_cov[of "i - 1"] before i yb by simp
  moreover have "\<not> covers p (?y + 1)" using not_cov[of "Suc i"] after i ya by simp
  ultimately have "fst p = ?y \<and> snd p = ?y"
    using p(2) by (auto simp: covers_def)
  then have "p = (?y, ?y)" by (cases p) simp
  with p(1) show ?thesis by simp
qed

lemma find_periods_end:
  assumes cy: "consecutive_years yr" and ne: "yr \<noteq> []" and neg: "le_zero (snd (last yr))"
  shows "find_periods yr \<noteq> [] \<and> snd (last (find_periods yr)) = year (fst (last yr))"
proof -
  let ?y = "year (fst (last yr))"
  let ?ps = "find_periods yr"
  have cov: "{y. \<exists>p \<in> set ?ps. covers p y}
         = {y. \<exists>r \<in> set yr. year (fst r) = y \<and> le_zero (snd r)}"
    by (rule find_periods_core(3)[OF cy])
  have "?y \<in> {y. \<exists>r \<in> set yr. year (fst r) = y \<and> le_zero (snd r)}"
    using neg ne last_in_set by blast
  with cov obtain p where p: "p \<in> set ?ps" "covers p ?y" by blast
  then have nonempty: "?ps \<noteq> []" by auto
  have upper: "snd q \<le> ?y" if q: "q \<in> set ?ps" for q
  proof -
    from find_periods_core(2)[OF cy] q have "covers q (snd q)" by (simp add: covers_def)
    with q cov obtain r where "r \<in> set yr" "year (fst r) = snd q" by blast
    with series_year_bounds[OF cy] show ?thesis by metis
  qed
  have "p = last ?ps"
  proof (rule ccontr)
    assume "p \<noteq> last ?ps"
    with sorted_wrt_last[OF find_periods_core(1)[OF cy] p(1)] have "apart p (last ?ps)" by simp
    moreover have "fst (last ?ps) \<le> snd (last ?ps)"
      using find_periods_core(2)[OF cy] nonempty last_in_set by blast
    moreover have "snd (last ?ps) \<le> ?y" using upper nonempty last_in_set by blast
    ultimately show False using p(2) by (simp add: apart_def covers_def)
  qed
  moreover have "snd p = ?y" using upper[OF p(1)] p(2) by (simp add: covers_def)
  ultimately show ?thesis using nonempty by simp
qed

text \<open>
  Claim C2. For every yearly series (its index holding consecutive years), the periods
  that the scan returns are ordered by start year and pairwise apart (so they do not
  overlap, and at least one year separates two of them), each has its start at or before
  its end, and a year is covered by some period exactly when it is a year of the series
  with return \<open>\<le> 0\<close>. So each period is a maximal run; in particular a non-positive
  year between two positive years is a one-year period of its own, and when the last
  year of the series is non-positive the last period ends at that year.
\<close>

theorem find_periods_slumps:
  assumes cy: "consecutive_years yr"
  shows "sorted_wrt apart (find_periods yr)
     \<and> sorted_wrt (\<lambda>p q. fst p < fst q) (find_periods yr)
     \<and> (\<forall>p \<in> set (find_periods yr). fst p \<le> snd p)
     \<and> (\<forall>y. (\<exists>p \<in> set (find_periods yr). covers p y)
             \<longleftrightarrow> (\<exists>r \<in> set yr. year (fst r) = y \<and> le_zero (snd r)))
     \<and> (\<forall>i. 0 < i \<and> Suc i < length yr \<and> le_zero (snd (yr ! i))
              \<and> \<not> le_zero (snd (yr ! (i - 1))) \<and> \<not> le_zero (snd (yr ! Suc i))
           \<longrightarrow> (year (fst (yr ! i)), year (fst (yr ! i))) \<in> set (find_periods yr))
     \<and> (yr \<noteq> [] \<and> le_zero (snd (last yr))
           \<longrightarrow> find_periods yr \<noteq> [] \<and> snd (last (find_periods yr)) = year (fst (last yr)))"
proof -
  have a: "sorted_wrt apart (find_periods yr)" by (rule find_periods_core(1)[OF cy])
  have b: "\<forall>p \<in> set (find_periods yr). fst p \<le> snd p" by (rule find_periods_core(2)[OF cy])
  have "\<And>p q. p \<in> set (find_periods yr) \<Longrightarrow> q \<in> set (find_periods yr) \<Longrightarrow> apart p q \<Longrightarrow> fst p < fst q"
    using b by (auto simp: apart_def)
  with a have c: "sorted_wrt (\<lambda>p q. fst p < fst q) (find_periods yr)"
    by (rule sorted_wrt_mono_rel[rotated])
  have d: "\<forall>y. (\<exists>p \<in> set (find_periods yr). covers p y)
             \<longleftrightarrow> (\<exists>r \<in> set yr. year (fst r) = y \<and> le_zero (snd r))"
    using find_periods_core(3)[OF cy] by blast
  show ?thesis
    using a b c d find_periods_single[OF cy] find_periods_end[OF cy] by blast
qed

theorem find_periods_slumps_witness:
  "consecutive_years slump_example
   \<and> sorted_wrt apart (find_periods slump_example)
   \<and> (2020, 2020) \<in> set (find_periods slump_example)
   \<and> snd (last (find_periods slump_example)) = 2022"
proof -
  have h: "consecutive_years slump_example"
    by (auto simp: consecutive_years_def slump_example_def less_Suc_eq)
  have one: "0 < (1::nat) \<and> Suc 1 < length slump_example \<and> le_zero (snd (slump_example ! 1))
      \<and> \<not> le_zero (snd (slump_example ! (1 - 1))) \<and> \<not> le_zero (snd (slump_example ! Suc 1))"
    by (simp add: slump_example_def)
  have y: "year (fst (slump_example ! 1)) = 2020" "year (fst (last slump_example)) = 2022"
    by (simp_all add: slump_example_def)
  have e: "slump_example \<noteq> [] \<and> le_zero (snd (last slump_example))"
    by (simp add: slump_example_def)
  from find_periods_slumps[OF h] one e y h show ?thesis
    by metis
qed

section \<open>Bounds of the probabilities\<close>

lemma step_mono:
  "snd cs \<le> fst cs \<Longrightarrow> snd (exceeds_step yr m cs p) \<le> fst (exceeds_step yr m cs p)"
  by (cases cs; cases p) (auto simp: exceeds_step_def split: option.splits)

lemma step_bound: "fst (exceeds_step yr m cs p) \<le> fst cs + 1"
  by (cases cs; cases p) (auto simp: exceeds_step_def split: option.splits)

lemma foldl_step_mono:
  "snd cs \<le> fst cs \<Longrightarrow> snd (foldl (exceeds_step yr m) cs ps) \<le> fst (foldl (exceeds_step yr m) cs ps)"
  by (induction ps arbitrary: cs) (simp_all add: step_mono)

lemma foldl_step_bound:
  "fst (foldl (exceeds_step yr m) cs ps) \<le> fst cs + length ps"
proof (induction ps arbitrary: cs)
  case Nil
  show ?case by simp
next
  case (Cons p ps)
  have "fst (foldl (exceeds_step yr m) (exceeds_step yr m cs p) ps)
          \<le> fst (exceeds_step yr m cs p) + length ps"
    by (rule Cons.IH)
  also have "\<dots> \<le> fst cs + 1 + length ps"
    using step_bound[of yr m cs p] by simp
  finally show ?case by simp
qed

lemma counts_ordered:
  "snd (exceeds_counts yr m ps) \<le> fst (exceeds_counts yr m ps)"
  "fst (exceeds_counts yr m ps) \<le> length ps"
  using foldl_step_mono[of "(0, 0)" yr m ps] foldl_step_bound[of yr m "(0, 0)" ps]
  by (simp_all add: exceeds_counts_def)

lemma recovery_probabilities_bounded:
  "0 \<le> snd (recovery_probabilities yr m ps)
   \<and> snd (recovery_probabilities yr m ps) \<le> fst (recovery_probabilities yr m ps)
   \<and> fst (recovery_probabilities yr m ps) \<le> 1"
proof (cases "ps = []")
  case True
  then show ?thesis by (simp add: recovery_probabilities_def)
next
  case False
  then have pos: "0 < real (length ps)" by simp
  have a: "real (snd (exceeds_counts yr m ps)) \<le> real (fst (exceeds_counts yr m ps))"
    using counts_ordered(1)[of yr m ps] by simp
  have b: "real (fst (exceeds_counts yr m ps)) \<le> real (length ps)"
    using counts_ordered(2)[of yr m ps] by simp
  from pos a b False show ?thesis
    by (simp add: recovery_probabilities_def Let_def divide_right_mono)
qed

text \<open>
  Claim C6. For every input frame and every current year, both probabilities lie between
  0 and 1, and the two-year probability is at most the one-year probability: each period
  raises either counter by at most one, and the two-year counter only together with the
  one-year counter.
\<close>

theorem probabilities_in_unit_interval:
  "0 \<le> probability_next_two_years_exceeds (snd (analyze_nifty_data cy df))
   \<and> probability_next_two_years_exceeds (snd (analyze_nifty_data cy df))
       \<le> probability_next_year_exceeds (snd (analyze_nifty_data cy df))
   \<and> probability_next_year_exceeds (snd (analyze_nifty_data cy df)) \<le> 1"
  using recovery_probabilities_bounded
    [of "resample_returns year_ends (rows df)"
        "mean (map snd (resample_returns year_ends (rows df)))"
        "find_periods (resample_returns year_ends (rows df))"]
  by (simp add: analyze_nifty_data_def Let_def)

section \<open>Empty and single-row input\<close>

lemma resample_returns_short:
  assumes "length (labels (map fst rs)) \<le> 1"
  shows "resample_returns labels rs = []"
proof (cases "labels (map fst rs)")
  case Nil
  then show ?thesis
    by (simp add: resample_returns_def resample_ffill_def pct_change_series_def dropna_def)
next
  case (Cons l ls)
  with assms have "ls = []" by simp
  with Cons show ?thesis
    by (simp add: resample_returns_def resample_ffill_def pct_change_series_def dropna_def)
qed

lemma year_ends_short: "length idx \<le> 1 \<Longrightarrow> length (year_ends idx) \<le> 1"
  by (cases idx) (auto simp: year_ends_def)

lemma month_ends_short: "length idx \<le> 1 \<Longrightarrow> length (month_ends idx) \<le> 1"
  by (cases idx) (auto simp: month_ends_def)

lemma yearly_of_no_rows: "resample_returns year_ends [] = []"
  by (simp add: resample_returns_def resample_ffill_def year_ends_def pct_change_series_def
      dropna_def)

lemma find_periods_Nil: "find_periods [] = []"
  by (simp add: find_periods_def)

lemma recovery_probabilities_Nil: "recovery_probabilities yr m [] = (0, 0)"
  by (simp add: recovery_probabilities_def)

text \<open>
  Claim C7. For a frame with no row, and for a frame with a single row, the analysis
  returns (the model has no failing branch on such input) an empty yearly series, an
  empty monthly series and both probabilities 0: a resampling with at most one period
  has only the undefined first return, which is dropped.
\<close>

theorem too_short_input:
  assumes "length (rows df) \<le> 1"
  shows "yearly_returns (snd (analyze_nifty_data cy df)) = []
     \<and> monthly_returns_current_year (snd (analyze_nifty_data cy df)) = []
     \<and> probability_next_year_exceeds (snd (analyze_nifty_data cy df)) = 0
     \<and> probability_next_two_years_exceeds (snd (analyze_nifty_data cy df)) = 0"
proof -
  have y: "resample_returns year_ends (rows df) = []"
    using assms by (intro resample_returns_short year_ends_short) simp
  have "length (filter (\<lambda>r. year (fst r) = cy) (rows df)) \<le> 1"
    using assms length_filter_le[of "\<lambda>r. year (fst r) = cy" "rows df"] by linarith
  then have m: "resample_returns month_ends (filter (\<lambda>r. year (fst r) = cy) (rows df)) = []"
    by (intro resample_returns_short month_ends_short) simp
  show ?thesis
    by (simp add: analyze_nifty_data_def Let_def y m find_periods_Nil recovery_probabilities_Nil)
qed

theorem too_short_input_witness:
  "length (rows \<lparr>rows = [(Timestamp 2024 3 15, 22000)], daily_return = None\<rparr>) \<le> 1
   \<and> yearly_returns (snd (analyze_nifty_data 2024
        \<lparr>rows = [(Timestamp 2024 3 15, 22000)], daily_return = None\<rparr>)) = []
   \<and> monthly_returns_current_year (snd (analyze_nifty_data 2024
        \<lparr>rows = [(Timestamp 2024 3 15, 22000)], daily_return = None\<rparr>)) = []
   \<and> probability_next_year_exceeds (snd (analyze_nifty_data 2024
        \<lparr>rows = [(Timestamp 2024 3 15, 22000)], daily_return = None\<rparr>)) = 0"
proof -
  have h: "length (rows \<lparr>rows = [(Timestamp 2024 3 15, 22000)], daily_return = None\<rparr>) \<le> 1"
    by simp
  from too_short_input[OF h, of 2024] h show ?thesis by blast
qed

section \<open>The mean of an empty yearly series\<close>

text \<open>
  Claim C5, amended. When the yearly series is empty, the mean the analysis returns is
  \<open>NaN\<close>, the value pandas gives for the mean of no values; it is not zero. The call
  still returns: nothing is raised. The code has no guard that would put a zero there.
\<close>

theorem mean_of_empty_series:
  assumes "yearly_returns (snd (analyze_nifty_data cy df)) = []"
  shows "mean_yearly_return (snd (analyze_nifty_data cy df)) = NaN"
  using assms by (simp add: analyze_nifty_data_def Let_def mean_def)

theorem mean_of_empty_series_witness:
  "yearly_returns (snd (analyze_nifty_data 2024 \<lparr>rows = [], daily_return = None\<rparr>)) = []
   \<and> mean_yearly_return (snd (analyze_nifty_data 2024 \<lparr>rows = [], daily_return = None\<rparr>)) = NaN"
proof -
  have h: "yearly_returns (snd (analyze_nifty_data 2024 \<lparr>rows = [], daily_return = None\<rparr>)) = []"
    by (simp add: analyze_yearly yearly_of_no_rows)
  from mean_of_empty_series[OF h] h show ?thesis by blast
qed

theorem mean_of_empty_series_not_zero:
  "mean_yearly_return (snd (analyze_nifty_data 2024 \<lparr>rows = [], daily_return = None\<rparr>)) \<noteq> Fin 0"
  by (simp add: analyze_mean yearly_of_no_rows mean_def)

section \<open>Effect on the input frame\<close>

text \<open>
  Claim C9, amended. The analysis leaves the index and the \<open>Close\<close> column of its
  input frame as they were, and sets the \<open>Daily_Return\<close> column of that frame to
  the percentage change of \<open>Close\<close>. So a frame that came without that column is not
  the same after the call.
\<close>

theorem analysis_writes_daily_return:
  "rows (fst (analyze_nifty_data cy df)) = rows df
   \<and> daily_return (fst (analyze_nifty_data cy df))
       = Some (pct_change (map (\<lambda>r. Fin (snd r)) (rows df)))"
  by (simp add: analyze_nifty_data_def Let_def)

theorem input_frame_changed:
  "fst (analyze_nifty_data 2024 \<lparr>rows = [(Timestamp 2024 3 15, 22000)], daily_return = None\<rparr>)
     \<noteq> \<lparr>rows = [(Timestamp 2024 3 15, 22000)], daily_return = None\<rparr>"
  by (simp add: analyze_nifty_data_def Let_def)

text \<open>
  Claim C10. Calling the analysis a second time, on the frame as the first call left it
  and with the same current year, gives the same yearly series, monthly series, mean and
  probabilities, and leaves the frame as the first call left it.
\<close>

theorem analysis_repeatable:
  "analyze_nifty_data cy (fst (analyze_nifty_data cy df)) = analyze_nifty_data cy df"
  by (simp add: analyze_nifty_data_def Let_def)

section \<open>The denominator of the probabilities\<close>

lemma length_pct_change: "length (pct_change xs) = length xs"
  by (cases xs) simp_all

lemma index_pct_change_series: "map fst (pct_change_series s) = map fst s"
  by (simp add: pct_change_series_def length_pct_change)

lemma yearly_distinct_years:
  "distinct (map (\<lambda>r. year (fst r)) (resample_returns year_ends rs))"
proof -
  have "map (\<lambda>r. year (fst r)) (pct_change_series (resample_ffill year_ends rs))
          = map year (map fst (pct_change_series (resample_ffill year_ends rs)))"
    by simp
  also have "\<dots> = map year (year_ends (map fst rs))"
    by (simp add: index_pct_change_series resample_ffill_def comp_def)
  finally have "distinct (map (\<lambda>r. year (fst r)) (pct_change_series (resample_ffill year_ends rs)))"
    by (simp add: year_ends_def comp_def)
  then show ?thesis
    unfolding resample_returns_def dropna_def by (rule distinct_map_filter)
qed

lemma step_at_last_year:
  assumes d: "distinct (map (\<lambda>r. year (fst r)) yr)" and e: "snd p = year (fst (last yr))"
  shows "exceeds_step yr m cs p = cs"
proof -
  have last_only: "k = length yr - 1"
    if k: "k < length yr" "year (fst (yr ! k)) = year (fst (last yr))" for k
  proof -
    from k(1) have ne: "yr \<noteq> []" by auto
    let ?ys = "map (\<lambda>r. year (fst r)) yr"
    have eq: "?ys ! k = ?ys ! (length yr - 1)"
      using k ne by (simp add: last_conv_nth)
    have "(?ys ! k = ?ys ! (length yr - 1)) = (k = length yr - 1)"
      using d k(1) ne by (intro nth_eq_iff_index_eq) simp_all
    with eq show ?thesis by simp
  qed
  obtain c1 c2 where cs: "cs = (c1, c2)" by (cases cs)
  obtain s1 e1 where p: "p = (s1, e1)" by (cases p)
  from e p have e1: "e1 = year (fst (last yr))" by simp
  show ?thesis
  proof (cases "get_loc_nearest (map fst yr) (Timestamp e1 12 31)")
    case None
    then show ?thesis by (simp add: exceeds_step_def cs p)
  next
    case (Some k)
    show ?thesis
    proof (cases "k < length yr \<and> year (fst (yr ! k)) = e1")
      case True
      with e1 last_only have "k = length yr - 1" by simp
      with True have nk: "\<not> Suc k < length yr" "\<not> Suc (Suc k) < length yr" by linarith+
      then show ?thesis
        by (simp add: exceeds_step_def cs p Some)
    next
      case False
      then show ?thesis
        by (simp add: exceeds_step_def cs p Some)
    qed
  qed
qed

lemma foldl_step_filter_bound:
  assumes skip: "\<And>p cs. \<not> Q p \<Longrightarrow> exceeds_step yr m cs p = cs"
  shows "fst (foldl (exceeds_step yr m) cs ps) \<le> fst cs + length (filter Q ps)"
proof (induction ps arbitrary: cs)
  case Nil
  show ?case by simp
next
  case (Cons p ps)
  show ?case
  proof (cases "Q p")
    case True
    have "fst (foldl (exceeds_step yr m) (exceeds_step yr m cs p) ps)
            \<le> fst (exceeds_step yr m cs p) + length (filter Q ps)"
      by (rule Cons.IH)
    also have "\<dots> \<le> fst cs + 1 + length (filter Q ps)"
      using step_bound[of yr m cs p] by simp
    finally show ?thesis using True by simp
  next
    case False
    with skip[of p cs] Cons.IH[of cs] show ?thesis by simp
  qed
qed

lemma recovery_probabilities_nonempty:
  "ps \<noteq> [] \<Longrightarrow> recovery_probabilities yr m ps =
     (real (fst (exceeds_counts yr m ps)) / real (length ps),
      real (snd (exceeds_counts yr m ps)) / real (length ps))"
  by (simp add: recovery_probabilities_def Let_def)

text \<open>
  Claim C3. When the scan finds at least one period, each probability is its counter
  divided by the number of all periods found. A period whose end year is the year of the
  last entry of the yearly series leaves both counters as they are, whatever their
  values, so it is counted in the denominator only: neither counter exceeds the number of
  periods that end before the last year.
\<close>

theorem denominator_counts_every_slump:
  assumes yr: "yr = yearly_returns (snd (analyze_nifty_data cy df))"
    and m: "m = mean_yearly_return (snd (analyze_nifty_data cy df))"
    and ps: "ps = find_periods yr"
    and ne: "ps \<noteq> []"
  shows "probability_next_year_exceeds (snd (analyze_nifty_data cy df))
           = real (fst (exceeds_counts yr m ps)) / real (length ps)
     \<and> probability_next_two_years_exceeds (snd (analyze_nifty_data cy df))
           = real (snd (exceeds_counts yr m ps)) / real (length ps)
     \<and> (\<forall>p \<in> set ps. snd p = year (fst (last yr)) \<longrightarrow> (\<forall>cs. exceeds_step yr m cs p = cs))
     \<and> fst (exceeds_counts yr m ps) \<le> length (filter (\<lambda>p. snd p \<noteq> year (fst (last yr))) ps)
     \<and> snd (exceeds_counts yr m ps) \<le> length (filter (\<lambda>p. snd p \<noteq> year (fst (last yr))) ps)"
proof -
  have yr': "yr = resample_returns year_ends (rows df)"
    by (simp add: yr analyze_yearly)
  have m': "m = mean (map snd yr)"
    by (simp add: m yr' analyze_mean)
  have d: "distinct (map (\<lambda>r. year (fst r)) yr)"
    unfolding yr' by (rule yearly_distinct_years)
  have "(probability_next_year_exceeds (snd (analyze_nifty_data cy df)),
         probability_next_two_years_exceeds (snd (analyze_nifty_data cy df)))
        = recovery_probabilities yr m ps"
    by (simp only: analyze_probabilities yr' m' ps)
  with ne have probs:
    "probability_next_year_exceeds (snd (analyze_nifty_data cy df))
       = real (fst (exceeds_counts yr m ps)) / real (length ps)"
    "probability_next_two_years_exceeds (snd (analyze_nifty_data cy df))
       = real (snd (exceeds_counts yr m ps)) / real (length ps)"
    by (simp_all add: recovery_probabilities_nonempty)
  have skip: "\<And>p cs. \<not> snd p \<noteq> year (fst (last yr)) \<Longrightarrow> exceeds_step yr m cs p = cs"
    using step_at_last_year[OF d] by simp
  have one: "fst (exceeds_counts yr m ps) \<le> length (filter (\<lambda>p. snd p \<noteq> year (fst (last yr))) ps)"
    using foldl_step_filter_bound[of "\<lambda>p. snd p \<noteq> year (fst (last yr))" yr m "(0, 0)" ps, OF skip]
    by (simp add: exceeds_counts_def)
  have two: "snd (exceeds_counts yr m ps) \<le> length (filter (\<lambda>p. snd p \<noteq> year (fst (last yr))) ps)"
    using one counts_ordered(1)[of yr m ps] by linarith
  from probs skip one two show ?thesis by blast
qed

lemma recent_slump_yearly: "resample_returns year_ends recent_slump_rows = recent_slump_returns"
  by (simp add: resample_returns_def resample_ffill_def year_ends_def recent_slump_rows_def
      recent_slump_returns_def asof_def ts_le_def pct_change_series_def dropna_def upto.simps)

lemma recent_slump_periods: "find_periods recent_slump_returns = [(2019, 2019), (2021, 2021)]"
  by (simp add: find_periods_def scan_step_def recent_slump_returns_def upt_conv_Cons)

theorem denominator_counts_every_slump_witness:
  "find_periods recent_slump_returns \<noteq> []
   \<and> (2021, 2021) \<in> set (find_periods recent_slump_returns)
   \<and> exceeds_step recent_slump_returns (mean (map snd recent_slump_returns)) (0, 0) (2021, 2021)
       = (0, 0)
   \<and> probability_next_year_exceeds
       (snd (analyze_nifty_data 2024 \<lparr>rows = recent_slump_rows, daily_return = None\<rparr>))
       = real (fst (exceeds_counts recent_slump_returns (mean (map snd recent_slump_returns))
                      (find_periods recent_slump_returns)))
         / real (length (find_periods recent_slump_returns))"
proof -
  let ?df = "\<lparr>rows = recent_slump_rows, daily_return = None\<rparr>"
  have y: "recent_slump_returns = yearly_returns (snd (analyze_nifty_data 2024 ?df))"
    by (simp add: analyze_yearly recent_slump_yearly)
  have m: "mean (map snd recent_slump_returns) = mean_yearly_return (snd (analyze_nifty_data 2024 ?df))"
    by (simp add: analyze_mean recent_slump_yearly)
  have ne: "find_periods recent_slump_returns \<noteq> []"
    by (simp add: recent_slump_periods)
  have mem: "(2021, 2021) \<in> set (find_periods recent_slump_returns)"
    by (simp add: recent_slump_periods)
  have lastyear: "snd (2021::int, 2021::int) = year (fst (last recent_slump_returns))"
    by (simp add: recent_slump_returns_def)
  from denominator_counts_every_slump[OF y m refl ne] mem lastyear ne show ?thesis
    by blast
qed

section \<open>The lookup of a period's end year\<close>










section \<open>The yearly return series\<close>

lemma days_in_month_le: "days_in_month y m \<le> 31"
  by (simp add: days_in_month_def)

lemma valid_le_year_end:
  assumes "valid_date d"
  shows "ts_le d (Timestamp y 12 31) = (year d \<le> y)"
proof -
  have "day d \<le> 31" using assms days_in_month_le[of "year d" "month d"]
    by (simp add: valid_date_def)
  moreover have "month d \<le> 12" using assms by (simp add: valid_date_def)
  ultimately show ?thesis by (auto simp: ts_le_def)
qed

lemma asof_year_end:
  assumes v: "\<forall>r \<in> set rs. valid_date (fst r)" and ne: "rs \<noteq> []"
    and y: "year (fst (hd rs)) \<le> y"
  shows "asof rs (Timestamp y 12 31) = Fin (close_at_year_end rs y)"
proof -
  have eq: "filter (\<lambda>r. ts_le (fst r) (Timestamp y 12 31)) rs = filter (\<lambda>r. year (fst r) \<le> y) rs"
    using v by (intro filter_cong) (simp_all add: valid_le_year_end)
  have "\<exists>r \<in> set rs. year (fst r) \<le> y"
    using ne y hd_in_set by blast
  then have "filter (\<lambda>r. year (fst r) \<le> y) rs \<noteq> []"
    by (simp add: filter_empty_conv)
  then show ?thesis
    by (simp add: asof_def eq close_at_year_end_def split: list.splits)
qed

lemma zip_upto_pred: "zip [a + 1..b] [a..b] = map (\<lambda>y. (y, y - 1)) [a + 1..b]"
proof (induction a b rule: upto.induct)
  case (1 i j)
  show ?case
  proof (cases "i + 1 \<le> j")
    case True
    then have "i \<le> j" by simp
    from 1[OF this] True show ?thesis
      by (simp add: upto_rec1[of i j] upto_rec1[of "i + 1" j])
  next
    case False
    then show ?thesis by simp
  qed
qed

lemma pct_change_upto:
  "pct_change (map g [a..b]) =
     (if a \<le> b then NaN # map (\<lambda>y. pct (g y) (g (y - 1))) [a + 1..b] else [])"
proof (cases "a \<le> b")
  case True
  have "map2 pct (map g [a + 1..b]) (map g [a..b]) = map (\<lambda>(x, y). pct (g x) (g y)) (zip [a + 1..b] [a..b])"
    by (simp add: zip_map_map split_def)
  also have "\<dots> = map (\<lambda>y. pct (g y) (g (y - 1))) [a + 1..b]"
    by (simp add: zip_upto_pred)
  finally show ?thesis using True
    by (simp add: upto_rec1[of a b])
next
  case False
  then show ?thesis by simp
qed

lemma yearly_closed_form:
  assumes v: "\<forall>r \<in> set rs. valid_date (fst r)" and ne: "rs \<noteq> []"
    and nz: "\<forall>r \<in> set rs. snd r \<noteq> 0"
  shows "resample_returns year_ends rs =
     map (\<lambda>y. (Timestamp y 12 31, Fin (close_at_year_end rs y / close_at_year_end rs (y - 1) - 1)))
       [year (fst (hd rs)) + 1 .. year (fst (last rs))]"
proof -
  let ?a = "year (fst (hd rs))" and ?b = "year (fst (last rs))"
  let ?c = "close_at_year_end rs"
  have labels: "year_ends (map fst rs) = map (\<lambda>y. Timestamp y 12 31) [?a..?b]"
    using ne by (simp add: year_ends_def hd_map last_map)
  have ffill: "resample_ffill year_ends rs = map (\<lambda>y. (Timestamp y 12 31, Fin (?c y))) [?a..?b]"
    using asof_year_end[OF v ne] by (simp add: resample_ffill_def labels)
  have nzc: "?c y \<noteq> 0" if "?a \<le> y" for y
  proof -
    have "\<exists>r \<in> set rs. year (fst r) \<le> y" using ne that hd_in_set by blast
    then have "filter (\<lambda>r. year (fst r) \<le> y) rs \<noteq> []" by (simp add: filter_empty_conv)
    then have "last (filter (\<lambda>r. year (fst r) \<le> y) rs) \<in> set rs"
      using last_in_set by fastforce
    with nz show ?thesis by (simp add: close_at_year_end_def)
  qed
  show ?thesis
  proof (cases "?a \<le> ?b")
    case True
    have "pct_change_series (resample_ffill year_ends rs) =
        zip (map (\<lambda>y. Timestamp y 12 31) [?a..?b]) (pct_change (map (\<lambda>y. Fin (?c y)) [?a..?b]))"
      by (simp add: pct_change_series_def ffill comp_def)
    also have "\<dots> = (Timestamp ?a 12 31, NaN) #
        zip (map (\<lambda>y. Timestamp y 12 31) [?a + 1..?b])
            (map (\<lambda>y. pct (Fin (?c y)) (Fin (?c (y - 1)))) [?a + 1..?b])"
    proof -
      have pc: "pct_change (map (\<lambda>y. Fin (?c y)) [?a..?b])
                  = NaN # map (\<lambda>y. pct (Fin (?c y)) (Fin (?c (y - 1)))) [?a + 1..?b]"
        using True by (simp only: pct_change_upto if_True)
      have lab: "map (\<lambda>y. Timestamp y 12 31) [?a..?b]
                  = Timestamp ?a 12 31 # map (\<lambda>y. Timestamp y 12 31) [?a + 1..?b]"
        using True by (simp add: upto_rec1[of ?a ?b])
      show ?thesis by (simp only: pc lab zip_Cons_Cons)
    qed
    also have "\<dots> = (Timestamp ?a 12 31, NaN) #
        map (\<lambda>y. (Timestamp y 12 31, pct (Fin (?c y)) (Fin (?c (y - 1))))) [?a + 1..?b]"
      by (simp add: zip_map_map zip_same_conv_map)
    also have "map (\<lambda>y. (Timestamp y 12 31, pct (Fin (?c y)) (Fin (?c (y - 1))))) [?a + 1..?b]
       = map (\<lambda>y. (Timestamp y 12 31, Fin (?c y / ?c (y - 1) - 1))) [?a + 1..?b]"
      using nzc by (intro map_cong) simp_all
    finally show ?thesis
      by (simp add: resample_returns_def dropna_def comp_def)
  next
    case False
    then show ?thesis
      by (simp add: resample_returns_def dropna_def pct_change_series_def ffill)
  qed
qed


lemma yearly_series_consecutive:
  assumes v: "\<forall>r \<in> set rs. valid_date (fst r)" and nz: "\<forall>r \<in> set rs. snd r \<noteq> 0"
  shows "consecutive_years (resample_returns year_ends rs)"
proof (cases "rs = []")
  case True
  then show ?thesis
    by (simp add: yearly_of_no_rows consecutive_years_def)
next
  case False
  show ?thesis
    unfolding yearly_closed_form[OF v False nz] consecutive_years_def
    by (auto simp: nth_upto)
qed

lemma sorted_wrt_hd:
  "sorted_wrt R xs \<Longrightarrow> p \<in> set xs \<Longrightarrow> p \<noteq> hd xs \<Longrightarrow> R (hd xs) p"
  by (cases xs) auto

lemma ts_lt_year: "ts_lt a b \<Longrightarrow> year a \<le> year b"
  by (auto simp: ts_lt_def ts_le_def)

lemma row_years_within:
  assumes s: "sorted_wrt ts_lt (map fst rs)" and r: "r \<in> set rs"
  shows "year (fst (hd rs)) \<le> year (fst r) \<and> year (fst r) \<le> year (fst (last rs))"
proof -
  from r have ne: "rs \<noteq> []" by auto
  have mem: "fst r \<in> set (map fst rs)" using r by simp
  have h: "hd (map fst rs) = fst (hd rs)" and l: "last (map fst rs) = fst (last rs)"
    using ne by (simp_all add: hd_map last_map)
  have "year (fst (hd rs)) \<le> year (fst r)"
  proof (cases "fst r = fst (hd rs)")
    case True
    then show ?thesis by simp
  next
    case False
    with sorted_wrt_hd[OF s mem] h show ?thesis by (simp add: ts_lt_year)
  qed
  moreover have "year (fst r) \<le> year (fst (last rs))"
  proof (cases "fst r = fst (last rs)")
    case True
    then show ?thesis by simp
  next
    case False
    with sorted_wrt_last[OF s mem] l show ?thesis by (simp add: ts_lt_year)
  qed
  ultimately show ?thesis by simp
qed

text \<open>
  A calendar year without rows still has its entry: the close before it is carried
  forward, so its return is 0.
\<close>

lemma gap_year_is_filled:
  "resample_returns year_ends gap_rows =
     [(Timestamp 2019 12 31, Fin 0), (Timestamp 2020 12 31, Fin (1 / 10))]"
  by (simp add: resample_returns_def resample_ffill_def year_ends_def gap_rows_def
      asof_def ts_le_def pct_change_series_def dropna_def upto.simps)

text \<open>
  Claim C8. For a Price Series (valid dates in ascending order, no close equal to zero)
  whose first row is of year \<open>first_year\<close> and whose last row is of year
  \<open>last_year\<close>, the yearly series has one entry less than there are years from
  \<open>first_year\<close> to \<open>last_year\<close>. Its entry \<open>i\<close> is dated at the end of year
  \<open>first_year + 1 + i\<close> and holds the close carried to the end of that year, divided
  by the close carried to the end of the year before, minus 1; the entry of
  \<open>first_year\<close> itself is dropped. When every year from the first to the last has a
  row, as in a series with a point per trading day, that length is the number of distinct
  years of the rows minus 1.
\<close>

theorem yearly_returns_per_year:
  assumes ps: "price_series (rows df)" and ne: "rows df \<noteq> []"
    and nz: "\<forall>r \<in> set (rows df). snd r \<noteq> 0"
    and fy: "first_year = year (fst (hd (rows df)))"
    and ly: "last_year = year (fst (last (rows df)))"
    and yr: "yr = yearly_returns (snd (analyze_nifty_data cy df))"
  shows "length yr = card {first_year .. last_year} - 1
     \<and> (\<forall>i < length yr.
           yr ! i = (Timestamp (first_year + 1 + int i) 12 31,
                     Fin (close_at_year_end (rows df) (first_year + 1 + int i)
                            / close_at_year_end (rows df) (first_year + int i) - 1)))
     \<and> ((\<forall>y \<in> {first_year .. last_year}. \<exists>r \<in> set (rows df). year (fst r) = y)
          \<longrightarrow> length yr = card ((\<lambda>r. year (fst r)) ` set (rows df)) - 1)"
proof -
  from ps have v: "\<forall>r \<in> set (rows df). valid_date (fst r)"
    and s: "sorted_wrt ts_lt (map fst (rows df))"
    by (simp_all add: price_series_def)
  let ?c = "close_at_year_end (rows df)"
  have form: "yr = map (\<lambda>y. (Timestamp y 12 31, Fin (?c y / ?c (y - 1) - 1)))
                     [first_year + 1 .. last_year]"
    by (simp add: yr analyze_yearly yearly_closed_form[OF v ne nz] fy ly)
  have len: "length yr = nat (last_year - first_year)"
    by (simp add: form)
  have a: "length yr = card {first_year .. last_year} - 1"
    by (simp add: len)
  have b: "yr ! i = (Timestamp (first_year + 1 + int i) 12 31,
                     Fin (?c (first_year + 1 + int i) / ?c (first_year + int i) - 1))"
    if i: "i < length yr" for i
  proof -
    from i len have "first_year + 1 + int i \<le> last_year" by linarith
    then have "[first_year + 1 .. last_year] ! i = first_year + 1 + int i"
      by (rule nth_upto)
    moreover have "i < length [first_year + 1 .. last_year]"
      using i by (simp add: form)
    ultimately show ?thesis
      by (simp add: form)
  qed
  have c: "length yr = card ((\<lambda>r. year (fst r)) ` set (rows df)) - 1"
    if gap: "\<forall>y \<in> {first_year .. last_year}. \<exists>r \<in> set (rows df). year (fst r) = y"
  proof -
    have "(\<lambda>r. year (fst r)) ` set (rows df) = {first_year .. last_year}"
    proof (rule set_eqI, rule iffI)
      fix y assume "y \<in> (\<lambda>r. year (fst r)) ` set (rows df)"
      then obtain r where "r \<in> set (rows df)" "y = year (fst r)" by auto
      with row_years_within[OF s] show "y \<in> {first_year .. last_year}"
        by (simp add: fy ly)
    next
      fix y assume "y \<in> {first_year .. last_year}"
      with gap obtain r where "r \<in> set (rows df)" "year (fst r) = y" by blast
      then show "y \<in> (\<lambda>r. year (fst r)) ` set (rows df)" by auto
    qed
    with a show ?thesis by simp
  qed
  from a b c show ?thesis by blast
qed

lemma scenario_price_series: "price_series scenario_rows"
  by (simp add: price_series_def scenario_rows_def valid_date_def days_in_month_def
      ts_lt_def ts_le_def)

theorem yearly_returns_per_year_witness:
  "price_series (rows \<lparr>rows = scenario_rows, daily_return = None\<rparr>)
   \<and> length (yearly_returns (snd (analyze_nifty_data 2024
        \<lparr>rows = scenario_rows, daily_return = None\<rparr>)))
       = card ((\<lambda>r. year (fst r)) ` set scenario_rows) - 1
   \<and> yearly_returns (snd (analyze_nifty_data 2024
        \<lparr>rows = scenario_rows, daily_return = None\<rparr>)) ! 0
       = (Timestamp 2019 12 31,
          Fin (close_at_year_end scenario_rows 2019 / close_at_year_end scenario_rows 2018 - 1))"
proof -
  let ?df = "\<lparr>rows = scenario_rows, daily_return = None\<rparr>"
  let ?yr = "yearly_returns (snd (analyze_nifty_data 2024 ?df))"
  have ps: "price_series (rows ?df)" by (simp add: scenario_price_series)
  have ne: "rows ?df \<noteq> []" by (simp add: scenario_rows_def)
  have nz: "\<forall>r \<in> set (rows ?df). snd r \<noteq> 0" by (simp add: scenario_rows_def)
  have fy: "(2018::int) = year (fst (hd (rows ?df)))" by (simp add: scenario_rows_def)
  have ly: "(2023::int) = year (fst (last (rows ?df)))" by (simp add: scenario_rows_def)
  have gap: "\<forall>y \<in> {2018 .. 2023::int}. \<exists>r \<in> set (rows ?df). year (fst r) = y"
  proof
    fix y :: int assume "y \<in> {2018 .. 2023}"
    then have "y = 2018 \<or> y = 2019 \<or> y = 2020 \<or> y = 2021 \<or> y = 2022 \<or> y = 2023"
      by auto
    then show "\<exists>r \<in> set (rows ?df). year (fst r) = y"
      by (auto simp: scenario_rows_def)
  qed
  have pos: "0 < length ?yr"
    by (simp add: analyze_yearly scenario_yearly scenario_returns_def)
  note t = yearly_returns_per_year[OF ps ne nz fy ly refl, of 2024]
  from t gap have l: "length ?yr = card ((\<lambda>r. year (fst r)) ` set scenario_rows) - 1"
    by simp
  from t pos have n: "?yr ! 0 = (Timestamp 2019 12 31,
          Fin (close_at_year_end scenario_rows 2019 / close_at_year_end scenario_rows 2018 - 1))"
    by simp
  from ps l n show ?thesis by blast
qed

end
